theory Spec2Isabelle
  imports Main "HOL-Library.AList"
begin

section \<open>The Kanban board store of \<open>src/App.tsx\<close>\<close>

text \<open>
  The store of \<open>App.tsx\<close> (the hook \<open>useKanbanStore\<close>) keeps one value of type
  \<open>IKanbanState\<close> and replaces it by a new one in each of its eight callbacks. Every callback
  hands React a pure updater \<open>prevState \<Rightarrow> newState\<close>; the updaters are embedded here as
  functions from states to states, with the arguments of the callback in front.

  A JavaScript string is the list of its code units. The records of the data model take
  the type of the code units as a parameter. The store is stated for \<open>string\<close>, where a
  \<open>char\<close> is one of the code units \<open>U+0000\<close> to \<open>U+00FF\<close>: the literals of the source and
  the JSON text are written in them. The search projection is stated for every type of
  code units. Numbers that the store creates are integers (\<open>Date.now()\<close> and an array
  length), so they are modelled as \<open>int\<close>. The clock is an argument: the callbacks that
  read \<open>Date.now()\<close> take the instant that the call reads.
\<close>

subsection \<open>Data model (section 1 of the source)\<close>

text \<open>
  The field names \<open>id\<close>, \<open>title\<close> and \<open>order\<close> occur in both interfaces or clash with
  constants of HOL, so they carry the name of their interface; \<open>lists\<close> is a constant of HOL
  too.
\<close>

record 'u IList =
  list_id :: "'u list"
  list_title :: "'u list"
  colorVar :: "'u list"
  list_order :: int

record 'u ICard =
  card_id :: "'u list"
  listId :: "'u list"
  card_title :: "'u list"
  description :: "'u list"
  createdAt :: int

datatype theme_mode = Light | Dark

record 'u IKanbanState =
  lists_st :: "'u IList list"
  cards :: "'u ICard list"
  theme :: theme_mode
  searchTerm :: "'u list"

subsection \<open>Rendering a number in a template literal\<close>

text \<open>
  \<open>`card-${Date.now()}`\<close> renders the number in decimal, with a minus sign in front of a
  negative one (the instants of \<open>Date.now()\<close> are far below the magnitude where JavaScript
  switches to exponent notation).
\<close>

definition digit_char :: "nat \<Rightarrow> char" where
  "digit_char d = char_of (48 + d)"

function string_of_nat :: "nat \<Rightarrow> string" where
  "string_of_nat n =
     (if n < 10 then [digit_char n]
      else string_of_nat (n div 10) @ [digit_char (n mod 10)])"
  by pat_completeness auto
termination
  by (relation "measure (\<lambda>n. n)") auto

declare string_of_nat.simps [simp del]

definition string_of_number :: "int \<Rightarrow> string" where
  "string_of_number i =
     (if i < 0 then CHR ''-'' # string_of_nat (nat (- i)) else string_of_nat (nat i))"

text \<open>Reading decimal digits back, the inverse of \<open>string_of_nat\<close>.\<close>

definition digit_val :: "char \<Rightarrow> nat" where
  "digit_val c = of_char c - 48"

definition is_digit :: "char \<Rightarrow> bool" where
  "is_digit c = (48 \<le> (of_char c :: nat) \<and> (of_char c :: nat) \<le> 57)"

definition nat_of_digits :: "string \<Rightarrow> nat" where
  "nat_of_digits ds = foldl (\<lambda>a c. 10 * a + digit_val c) 0 ds"

subsection \<open>Seed data (section 2 of the source)\<close>

definition INITIAL_LISTS :: "char IList list" where
  "INITIAL_LISTS =
     [\<lparr>list_id = ''list-1'', list_title = ''A Fazer'',
       colorVar = ''--color-list-red'', list_order = 0\<rparr>,
      \<lparr>list_id = ''list-2'', list_title = ''Em Progresso'',
       colorVar = ''--color-list-blue'', list_order = 1\<rparr>,
      \<lparr>list_id = ''list-3'', list_title = ''Conclu'' @ [CHR 0xED] @ ''do'',
       colorVar = ''--color-list-green'', list_order = 2\<rparr>]"

text \<open>
  The four seed cards read the clock when the module is loaded, each card for itself;
  \<open>t0 k\<close> is the reading of card \<open>k\<close>. The letters outside ASCII are given by their code
  units.
\<close>

definition INITIAL_CARDS :: "(nat \<Rightarrow> int) \<Rightarrow> char ICard list" where
  "INITIAL_CARDS t0 =
     [\<lparr>card_id = ''card-1'', listId = ''list-1'',
       card_title = ''Criar Arquitetura do Projeto'',
       description = ''Definir o layout do Board e os componentes principais (Lista, Cart''
         @ [CHR 0xE3] @ ''o, Modal).'',
       createdAt = t0 1 - 3600000\<rparr>,
      \<lparr>card_id = ''card-2'', listId = ''list-1'',
       card_title = ''Implementar Persist'' @ [CHR 0xEA] @ ''ncia'',
       description = ''Configurar o salvamento e carregamento dos dados no localStorage.'',
       createdAt = t0 2 - 1800000\<rparr>,
      \<lparr>card_id = ''card-3'', listId = ''list-2'',
       card_title = ''Desenvolver Drag & Drop'',
       description = ''Aplicar a l'' @ [CHR 0xF3] @ ''gica de D&D para mover cart''
         @ [CHR 0xF5] @ ''es entre as colunas.'',
       createdAt = t0 3 - 600000\<rparr>,
      \<lparr>card_id = ''card-4'', listId = ''list-3'',
       card_title = ''Configurar Tema Escuro/Claro'',
       description = ''Criar o seletor de tema e aplicar estilos responsivos.'',
       createdAt = t0 4 - 7200000\<rparr>]"

text \<open>The state that \<open>getInitialState\<close> returns when nothing usable is stored.\<close>

definition seed_state :: "(nat \<Rightarrow> int) \<Rightarrow> char IKanbanState" where
  "seed_state t0 =
     \<lparr>lists_st = INITIAL_LISTS, cards = INITIAL_CARDS t0, theme = Light, searchTerm = []\<rparr>"

subsection \<open>The callbacks of \<open>useKanbanStore\<close> (section 3 of the source)\<close>

definition setCardList :: "string \<Rightarrow> string \<Rightarrow> char IKanbanState \<Rightarrow> char IKanbanState" where
  "setCardList cardId newListId prevState =
     prevState\<lparr>cards :=
       map (\<lambda>card. if card_id card = cardId then card\<lparr>listId := newListId\<rparr> else card)
         (cards prevState)\<rparr>"

text \<open>
  \<open>addCard\<close> reads the clock twice, first for the id and then for \<open>createdAt\<close>: \<open>now\<close> is
  the first reading and \<open>now'\<close> the second.
\<close>

definition addCard ::
  "int \<Rightarrow> int \<Rightarrow> string \<Rightarrow> string \<Rightarrow> string \<Rightarrow> char IKanbanState \<Rightarrow> char IKanbanState" where
  "addCard now now' lid ttl descr prevState =
     prevState\<lparr>cards := cards prevState @
       [\<lparr>card_id = ''card-'' @ string_of_number now, listId = lid, card_title = ttl,
         description = descr, createdAt = now'\<rparr>]\<rparr>"

definition updateCard :: "string \<Rightarrow> string \<Rightarrow> string \<Rightarrow> char IKanbanState \<Rightarrow> char IKanbanState" where
  "updateCard cardId newTitle newDescription prevState =
     prevState\<lparr>cards :=
       map (\<lambda>card. if card_id card = cardId
                   then card\<lparr>card_title := newTitle, description := newDescription\<rparr>
                   else card)
         (cards prevState)\<rparr>"

definition deleteCard :: "string \<Rightarrow> char IKanbanState \<Rightarrow> char IKanbanState" where
  "deleteCard cardId prevState =
     prevState\<lparr>cards := filter (\<lambda>card. card_id card \<noteq> cardId) (cards prevState)\<rparr>"

text \<open>
  \<open>addList\<close> takes the order of the new list from \<open>state.lists.length\<close>, the state that the
  callback closed over when it was rendered, and appends to \<open>prevState.lists\<close>, the state
  that the updater receives. \<open>rendered\<close> is the length that the closure holds.
\<close>

definition addList :: "nat \<Rightarrow> int \<Rightarrow> string \<Rightarrow> char IKanbanState \<Rightarrow> char IKanbanState" where
  "addList rendered now ttl prevState =
     prevState\<lparr>lists_st := lists_st prevState @
       [\<lparr>list_id = ''list-'' @ string_of_number now, list_title = ttl,
         colorVar = ''--color-list-yellow'', list_order = int rendered\<rparr>]\<rparr>"

definition toggleTheme :: "char IKanbanState \<Rightarrow> char IKanbanState" where
  "toggleTheme prevState =
     prevState\<lparr>theme := (if theme prevState = Light then Dark else Light)\<rparr>"

definition setSearchTerm :: "string \<Rightarrow> char IKanbanState \<Rightarrow> char IKanbanState" where
  "setSearchTerm term prevState = prevState\<lparr>searchTerm := term\<rparr>"

text \<open>\<open>sourceListId\<close> is \<open>string | null\<close> in the source: \<open>None\<close> is \<open>null\<close>.\<close>

definition reorderCards :: "string option \<Rightarrow> string \<Rightarrow> string \<Rightarrow> char IKanbanState \<Rightarrow> char IKanbanState" where
  "reorderCards sourceListId cardId targetListId prevState =
     setCardList cardId targetListId prevState"

subsection \<open>Sequences of store operations\<close>

text \<open>
  A call of a callback of the store. A call of \<open>addList\<close> goes through the closure of some
  rendering of the hook, so it comes with the \<open>state.lists.length\<close> that this closure
  holds: the number of lists at that rendering, which is the number of lists before the
  call only when no list was added since. The other callbacks close over nothing of the
  state.
\<close>

datatype action =
    SetCardList string string
  | AddCard int int string string string
  | UpdateCard string string string
  | DeleteCard string
  | AddList nat int string
  | ToggleTheme
  | SetSearchTerm string
  | ReorderCards "string option" string string

fun step :: "char IKanbanState \<Rightarrow> action \<Rightarrow> char IKanbanState" where
  "step s (SetCardList c l) = setCardList c l s"
| "step s (AddCard now now' l t d) = addCard now now' l t d s"
| "step s (UpdateCard c t d) = updateCard c t d s"
| "step s (DeleteCard c) = deleteCard c s"
| "step s (AddList rendered now t) = addList rendered now t s"
| "step s ToggleTheme = toggleTheme s"
| "step s (SetSearchTerm t) = setSearchTerm t s"
| "step s (ReorderCards src c l) = reorderCards src c l s"

definition run :: "char IKanbanState \<Rightarrow> action list \<Rightarrow> char IKanbanState" where
  "run s acts = foldl step s acts"

text \<open>
  The ids that \<open>addCard\<close> and \<open>addList\<close> generate from an instant, and the instants that the
  creations of a sequence of operations read for their ids, in the order of the calls.
\<close>

definition card_key :: "int \<Rightarrow> string" where
  "card_key now = ''card-'' @ string_of_number now"

definition list_key :: "int \<Rightarrow> string" where
  "list_key now = ''list-'' @ string_of_number now"

fun card_instants :: "action list \<Rightarrow> int list" where
  "card_instants [] = []"
| "card_instants (AddCard now now' l t d # acts) = now # card_instants acts"
| "card_instants (a # acts) = card_instants acts"

fun list_instants :: "action list \<Rightarrow> int list" where
  "list_instants [] = []"
| "list_instants (AddList rendered now t # acts) = now # list_instants acts"
| "list_instants (a # acts) = list_instants acts"

subsection \<open>The search projection of \<open>BoardView\<close> (section 5 of the source)\<close>






subsection \<open>JSON values and the built-ins \<open>JSON.stringify\<close> and \<open>JSON.parse\<close>\<close>

text \<open>
  The values that \<open>JSON.parse\<close> can return: \<open>null\<close>, the booleans, numbers, strings,
  arrays, and objects as the list of their properties in the order of the keys. Numbers
  are the integers, as everywhere in this model.
\<close>

datatype json =
    JNull
  | JBool bool
  | JNum int
  | JStr string
  | JArr "json list"
  | JObj "(string \<times> json) list"

text \<open>The double quote and the backslash, which Isabelle's string literals cannot hold.\<close>

definition dquote :: char where
  "dquote = CHR 0x22"

definition bslash :: char where
  "bslash = CHR 0x5C"

text \<open>
  \<open>JSON.stringify\<close> quotes a string: the quote and the backslash get a backslash, the five
  control characters with a short escape get it, the other code units below \<open>U+0020\<close> are
  written as \<open>\u00\<close> and two lower-case hexadecimal digits, and every other code unit is
  written as it is.
\<close>

definition hex_char :: "nat \<Rightarrow> char" where
  "hex_char d = (if d < 10 then char_of (48 + d) else char_of (87 + d))"

definition hex_val :: "char \<Rightarrow> nat option" where
  "hex_val c =
     (let n = (of_char c :: nat)
      in if 48 \<le> n \<and> n \<le> 57 then Some (n - 48)
         else if 97 \<le> n \<and> n \<le> 102 then Some (n - 87)
         else if 65 \<le> n \<and> n \<le> 70 then Some (n - 55)
         else None)"

definition escape_char :: "char \<Rightarrow> string" where
  "escape_char c =
     (if c = CHR 0x08 then [bslash, CHR ''b'']
      else if c = CHR 0x09 then [bslash, CHR ''t'']
      else if c = CHR 0x0A then [bslash, CHR ''n'']
      else if c = CHR 0x0C then [bslash, CHR ''f'']
      else if c = CHR 0x0D then [bslash, CHR ''r'']
      else if c = dquote then [bslash, dquote]
      else if c = bslash then [bslash, bslash]
      else if (of_char c :: nat) < 32
        then [bslash, CHR ''u'', CHR ''0'', CHR ''0'',
              hex_char (of_char c div 16), hex_char (of_char c mod 16)]
      else [c])"

definition quote :: "string \<Rightarrow> string" where
  "quote s = dquote # concat (map escape_char s) @ [dquote]"

text \<open>
  \<open>JSON.stringify\<close> without indentation. \<open>stringify_elems\<close> and \<open>stringify_members\<close>
  write what follows the first element of an array and the first property of an object,
  up to and with the closing bracket.
\<close>

fun JSON_stringify :: "json \<Rightarrow> string"
  and stringify_elems :: "json list \<Rightarrow> string"
  and stringify_members :: "(string \<times> json) list \<Rightarrow> string" where
  "JSON_stringify JNull = ''null''"
| "JSON_stringify (JBool b) = (if b then ''true'' else ''false'')"
| "JSON_stringify (JNum i) = string_of_number i"
| "JSON_stringify (JStr s) = quote s"
| "JSON_stringify (JArr []) = ''[]''"
| "JSON_stringify (JArr (v # vs)) = ''['' @ JSON_stringify v @ stringify_elems vs"
| "JSON_stringify (JObj []) = ''{}''"
| "JSON_stringify (JObj ((k, v) # ms)) =
     ''{'' @ quote k @ '':'' @ JSON_stringify v @ stringify_members ms"
| "stringify_elems [] = '']''"
| "stringify_elems (v # vs) = '','' @ JSON_stringify v @ stringify_elems vs"
| "stringify_members [] = ''}''"
| "stringify_members ((k, v) # ms) =
     '','' @ quote k @ '':'' @ JSON_stringify v @ stringify_members ms"

text \<open>
  \<open>JSON.parse\<close>, as a recursive-descent parser. It returns \<open>None\<close> where the built-in
  throws a \<open>SyntaxError\<close>. White space is skipped between the tokens. Two kinds of text
  that the built-in accepts have no value in this model and are rejected here: a number
  with a fraction or an exponent, and a \<open>\u\<close> escape of a code unit above \<open>U+00FF\<close>.
  \<open>JSON.stringify\<close> writes neither for the values of the model.
\<close>

definition is_ws :: "char \<Rightarrow> bool" where
  "is_ws c = (c = CHR 0x20 \<or> c = CHR 0x09 \<or> c = CHR 0x0A \<or> c = CHR 0x0D)"

definition skip_ws :: "string \<Rightarrow> string" where
  "skip_ws s = dropWhile is_ws s"

fun strip_prefix :: "string \<Rightarrow> string \<Rightarrow> string option" where
  "strip_prefix [] s = Some s"
| "strip_prefix (p # ps) [] = None"
| "strip_prefix (p # ps) (c # cs) = (if p = c then strip_prefix ps cs else None)"

definition unescape :: "char \<Rightarrow> char option" where
  "unescape e =
     (if e = dquote then Some dquote
      else if e = bslash then Some bslash
      else if e = CHR ''/'' then Some CHR ''/''
      else if e = CHR ''b'' then Some CHR 0x08
      else if e = CHR ''f'' then Some CHR 0x0C
      else if e = CHR ''n'' then Some CHR 0x0A
      else if e = CHR ''r'' then Some CHR 0x0D
      else if e = CHR ''t'' then Some CHR 0x09
      else None)"

definition hex4 :: "char \<Rightarrow> char \<Rightarrow> char \<Rightarrow> char \<Rightarrow> nat option" where
  "hex4 a b c d =
     (case (hex_val a, hex_val b, hex_val c, hex_val d) of
        (Some w, Some x, Some y, Some z) \<Rightarrow> Some (((w * 16 + x) * 16 + y) * 16 + z)
      | _ \<Rightarrow> None)"

fun parse_chars :: "string \<Rightarrow> (string \<times> string) option" where
  "parse_chars [] = None"
| "parse_chars (c # cs) =
     (if c = dquote then Some ([], cs)
      else if c = bslash then
        (case cs of
           [] \<Rightarrow> None
         | e # r \<Rightarrow>
             if e = CHR ''u'' then
               (case r of
                  h1 # h2 # h3 # h4 # r' \<Rightarrow>
                    (case hex4 h1 h2 h3 h4 of
                       None \<Rightarrow> None
                     | Some n \<Rightarrow>
                         if n < 256 then
                           (case parse_chars r' of
                              None \<Rightarrow> None
                            | Some (str, rest) \<Rightarrow> Some (char_of n # str, rest))
                         else None)
                | _ \<Rightarrow> None)
             else
               (case unescape e of
                  None \<Rightarrow> None
                | Some x \<Rightarrow>
                    (case parse_chars r of
                       None \<Rightarrow> None
                     | Some (str, rest) \<Rightarrow> Some (x # str, rest))))
      else if (of_char c :: nat) < 32 then None
      else (case parse_chars cs of
              None \<Rightarrow> None
            | Some (str, rest) \<Rightarrow> Some (c # str, rest)))"

definition parse_number :: "string \<Rightarrow> (int \<times> string) option" where
  "parse_number s =
     (let neg = (s \<noteq> [] \<and> hd s = CHR ''-'');
          body = (if neg then tl s else s);
          ds = takeWhile is_digit body;
          rest = dropWhile is_digit body
      in if ds = [] then None
         else if 1 < length ds \<and> hd ds = CHR ''0'' then None
         else if rest \<noteq> [] \<and> hd rest \<in> {CHR ''.'', CHR ''e'', CHR ''E''} then None
         else Some (if neg then - int (nat_of_digits ds) else int (nat_of_digits ds), rest))"

text \<open>
  A key that occurs again in an object replaces the value of its first occurrence and
  keeps the place of that occurrence.
\<close>

definition obj_of_members :: "(string \<times> json) list \<Rightarrow> (string \<times> json) list" where
  "obj_of_members ms = foldl (\<lambda>al (k, v). AList.update k v al) [] ms"

definition parse_key :: "string \<Rightarrow> (string \<times> string) option" where
  "parse_key s =
     (case skip_ws s of
        [] \<Rightarrow> None
      | c # cs \<Rightarrow>
          if c = dquote then
            (case parse_chars cs of
               None \<Rightarrow> None
             | Some (k, r) \<Rightarrow>
                 (case skip_ws r of
                    [] \<Rightarrow> None
                  | c' # r' \<Rightarrow> if c' = CHR '':'' then Some (k, r') else None))
          else None)"

text \<open>
  The three mutually recursive parsers take the number of nested calls they may still
  make; every call reads at least one character before the next one, so the length of the
  text and one more is enough, and \<open>JSON_parse\<close> starts with it.
\<close>

fun parse_value :: "nat \<Rightarrow> string \<Rightarrow> (json \<times> string) option"
  and parse_elems :: "nat \<Rightarrow> string \<Rightarrow> (json list \<times> string) option"
  and parse_members :: "nat \<Rightarrow> string \<Rightarrow> ((string \<times> json) list \<times> string) option" where
  "parse_value 0 s = None"
| "parse_value (Suc n) s =
     (case skip_ws s of
        [] \<Rightarrow> None
      | c # cs \<Rightarrow>
          if c = dquote then
            (case parse_chars cs of
               None \<Rightarrow> None
             | Some (str, r) \<Rightarrow> Some (JStr str, r))
          else if c = CHR ''['' then
            (case skip_ws cs of
               [] \<Rightarrow> None
             | c' # r \<Rightarrow>
                 if c' = CHR '']'' then Some (JArr [], r)
                 else (case parse_value n cs of
                         None \<Rightarrow> None
                       | Some (v, r1) \<Rightarrow>
                           (case parse_elems n r1 of
                              None \<Rightarrow> None
                            | Some (vs, r2) \<Rightarrow> Some (JArr (v # vs), r2))))
          else if c = CHR ''{'' then
            (case skip_ws cs of
               [] \<Rightarrow> None
             | c' # r \<Rightarrow>
                 if c' = CHR ''}'' then Some (JObj [], r)
                 else (case parse_key cs of
                         None \<Rightarrow> None
                       | Some (k, r0) \<Rightarrow>
                           (case parse_value n r0 of
                              None \<Rightarrow> None
                            | Some (v, r1) \<Rightarrow>
                                (case parse_members n r1 of
                                   None \<Rightarrow> None
                                 | Some (ms, r2) \<Rightarrow>
                                     Some (JObj (obj_of_members ((k, v) # ms)), r2)))))
          else if c = CHR ''t'' then
            (case strip_prefix ''rue'' cs of None \<Rightarrow> None | Some r \<Rightarrow> Some (JBool True, r))
          else if c = CHR ''f'' then
            (case strip_prefix ''alse'' cs of None \<Rightarrow> None | Some r \<Rightarrow> Some (JBool False, r))
          else if c = CHR ''n'' then
            (case strip_prefix ''ull'' cs of None \<Rightarrow> None | Some r \<Rightarrow> Some (JNull, r))
          else (case parse_number (c # cs) of
                  None \<Rightarrow> None
                | Some (i, r) \<Rightarrow> Some (JNum i, r)))"
| "parse_elems 0 s = None"
| "parse_elems (Suc n) s =
     (case skip_ws s of
        [] \<Rightarrow> None
      | c # r \<Rightarrow>
          if c = CHR '']'' then Some ([], r)
          else if c = CHR '','' then
            (case parse_value n r of
               None \<Rightarrow> None
             | Some (v, r1) \<Rightarrow>
                 (case parse_elems n r1 of
                    None \<Rightarrow> None
                  | Some (vs, r2) \<Rightarrow> Some (v # vs, r2)))
          else None)"
| "parse_members 0 s = None"
| "parse_members (Suc n) s =
     (case skip_ws s of
        [] \<Rightarrow> None
      | c # r \<Rightarrow>
          if c = CHR ''}'' then Some ([], r)
          else if c = CHR '','' then
            (case parse_key r of
               None \<Rightarrow> None
             | Some (k, r0) \<Rightarrow>
                 (case parse_value n r0 of
                    None \<Rightarrow> None
                  | Some (v, r1) \<Rightarrow>
                      (case parse_members n r1 of
                         None \<Rightarrow> None
                       | Some (ms, r2) \<Rightarrow> Some ((k, v) # ms, r2))))
          else None)"

definition JSON_parse :: "string \<Rightarrow> json option" where
  "JSON_parse s =
     (case parse_value (Suc (length s)) s of
        None \<Rightarrow> None
      | Some (v, r) \<Rightarrow> if skip_ws r = [] then Some v else None)"

subsection \<open>Persistence (sections 2 and 3 of the source)\<close>

text \<open>
  A state as the JavaScript object that the store holds: the properties in the order in
  which the object literals of the source write them (the spread \<open>...prevState\<close> keeps
  the order).
\<close>

definition list_toJS :: "char IList \<Rightarrow> json" where
  "list_toJS l =
     JObj [(''id'', JStr (list_id l)), (''title'', JStr (list_title l)),
           (''colorVar'', JStr (colorVar l)), (''order'', JNum (list_order l))]"

definition card_toJS :: "char ICard \<Rightarrow> json" where
  "card_toJS c =
     JObj [(''id'', JStr (card_id c)), (''listId'', JStr (listId c)),
           (''title'', JStr (card_title c)), (''description'', JStr (description c)),
           (''createdAt'', JNum (createdAt c))]"

definition state_toJS :: "char IKanbanState \<Rightarrow> json" where
  "state_toJS s =
     JObj [(''lists'', JArr (map list_toJS (lists_st s))),
           (''cards'', JArr (map card_toJS (cards s))),
           (''theme'', JStr (case theme s of Light \<Rightarrow> ''light'' | Dark \<Rightarrow> ''dark'')),
           (''searchTerm'', JStr (searchTerm s))]"

definition STORAGE_KEY :: string where
  "STORAGE_KEY = ''kanban-board-state''"

text \<open>
  \<open>localStorage\<close>: either every access throws (\<open>Unavailable\<close>), or reading works and
  writing throws (\<open>Full\<close>, the quota is exceeded), or both work (\<open>Storage\<close>). A call
  completes by throwing or by returning a value; \<open>getItem\<close> returns \<open>None\<close> for \<open>null\<close>.
\<close>

datatype 'a completion = Throw | Normal 'a

datatype storage = Unavailable | Full "string \<rightharpoonup> string" | Storage "string \<rightharpoonup> string"

fun getItem :: "storage \<Rightarrow> string \<Rightarrow> string option completion" where
  "getItem Unavailable k = Throw"
| "getItem (Full m) k = Normal (m k)"
| "getItem (Storage m) k = Normal (m k)"

fun setItem :: "storage \<Rightarrow> string \<Rightarrow> string \<Rightarrow> storage completion" where
  "setItem Unavailable k v = Throw"
| "setItem (Full m) k v = Throw"
| "setItem (Storage m) k v = Normal (Storage (m(k \<mapsto> v)))"

text \<open>
  \<open>getInitialState\<close>: the \<open>try\<close> block reads the key, tests the value for truthiness (a
  string is falsy when it is empty) and parses it; the \<open>catch\<close> block logs and falls
  through to the seed state. The result of \<open>JSON.parse\<close> is cast to \<open>IKanbanState\<close> without
  a check, so the function returns a JavaScript value; \<open>JSON.parse\<close> is the argument
  \<open>parse\<close>, and \<open>t0\<close> holds the instants that the seed cards read.
\<close>

definition getInitialState ::
  "(string \<Rightarrow> json option) \<Rightarrow> (nat \<Rightarrow> int) \<Rightarrow> storage \<Rightarrow> json" where
  "getInitialState parse t0 localStorage =
     (case getItem localStorage STORAGE_KEY of
        Throw \<Rightarrow> state_toJS (seed_state t0)
      | Normal storedState \<Rightarrow>
          (case storedState of
             None \<Rightarrow> state_toJS (seed_state t0)
           | Some txt \<Rightarrow>
               if txt = [] then state_toJS (seed_state t0)
               else (case parse txt of
                       None \<Rightarrow> state_toJS (seed_state t0)
                     | Some v \<Rightarrow> v)))"

text \<open>
  The effect of \<open>useKanbanStore\<close> that runs after every change of the state; its write to
  \<open>localStorage\<close> is the part modelled.
\<close>

definition persist_effect :: "char IKanbanState \<Rightarrow> storage \<Rightarrow> storage completion" where
  "persist_effect state localStorage =
     setItem localStorage STORAGE_KEY (JSON_stringify (state_toJS state))"

subsection \<open>Auxiliary predicates of the proofs\<close>

text \<open>
  Values whose objects have pairwise different keys; texts that may follow a number; the
  characters with which the text of a value starts.
\<close>

fun wf_json :: "json \<Rightarrow> bool"
  and wf_elems :: "json list \<Rightarrow> bool"
  and wf_members :: "(string \<times> json) list \<Rightarrow> bool" where
  "wf_json (JArr vs) = wf_elems vs"
| "wf_json (JObj ms) = (distinct (map fst ms) \<and> wf_members ms)"
| "wf_json v = True"
| "wf_elems [] = True"
| "wf_elems (v # vs) = (wf_json v \<and> wf_elems vs)"
| "wf_members [] = True"
| "wf_members ((k, v) # ms) = (wf_json v \<and> wf_members ms)"

definition num_end :: "string \<Rightarrow> bool" where
  "num_end rest =
     (rest = [] \<or> \<not> (is_digit (hd rest) \<or> hd rest \<in> {CHR ''.'', CHR ''e'', CHR ''E''}))"

definition value_start :: "char \<Rightarrow> bool" where
  "value_start c =
     (c = dquote \<or> c = CHR ''['' \<or> c = CHR ''{'' \<or> c = CHR ''t'' \<or> c = CHR ''f''
      \<or> c = CHR ''n'' \<or> c = CHR ''-'' \<or> is_digit c)"

section \<open>Properties of the store\<close>

subsection \<open>The card callbacks\<close>

lemma map_if_unmatched:
  "k \<notin> f ` set xs \<Longrightarrow> map (\<lambda>x. if f x = k then g x else x) xs = xs"
  by (induction xs) auto

lemma filter_unmatched:
  "k \<notin> f ` set xs \<Longrightarrow> filter (\<lambda>x. f x \<noteq> k) xs = xs"
  by (induction xs) auto

text \<open>
  C2. When no card has the given id, \<open>setCardList\<close>, \<open>updateCard\<close> and \<open>deleteCard\<close> return
  the state they were given: the collections of lists and of cards are the ones before the
  call. The callbacks have no failing branch, so the call is a silent no-op.
\<close>

theorem unmatched_id_noop:
  assumes "cardId \<notin> card_id ` set (cards s)"
  shows "setCardList cardId newListId s = s
       \<and> updateCard cardId newTitle newDescription s = s
       \<and> deleteCard cardId s = s"
  using assms
  by (simp add: setCardList_def updateCard_def deleteCard_def map_if_unmatched filter_unmatched)

theorem unmatched_id_noop_witness:
  "''card-9'' \<notin> card_id ` set (cards (seed_state (\<lambda>k. 0)))
   \<and> setCardList ''card-9'' ''list-2'' (seed_state (\<lambda>k. 0)) = seed_state (\<lambda>k. 0)
   \<and> updateCard ''card-9'' ''t'' ''d'' (seed_state (\<lambda>k. 0)) = seed_state (\<lambda>k. 0)
   \<and> deleteCard ''card-9'' (seed_state (\<lambda>k. 0)) = seed_state (\<lambda>k. 0)"
proof -
  have h: "''card-9'' \<notin> card_id ` set (cards (seed_state (\<lambda>k. 0)))"
    by (simp add: seed_state_def INITIAL_CARDS_def)
  show ?thesis
    using h unmatched_id_noop [OF h, of "''list-2''" "''t''" "''d''"] by simp
qed

text \<open>
  C3. \<open>setCardList\<close> is idempotent, and it returns the state it was given when every card
  with the given id is already in the target list (a card dropped onto its own list).
\<close>

theorem setCardList_idempotent:
  "setCardList cardId X (setCardList cardId X s) = setCardList cardId X s
   \<and> ((\<forall>card \<in> set (cards s). card_id card = cardId \<longrightarrow> listId card = X)
        \<longrightarrow> setCardList cardId X s = s)"
proof
  show "setCardList cardId X (setCardList cardId X s) = setCardList cardId X s"
    by (simp add: setCardList_def o_def)
next
  show "(\<forall>card \<in> set (cards s). card_id card = cardId \<longrightarrow> listId card = X)
        \<longrightarrow> setCardList cardId X s = s"
  proof
    assume own: "\<forall>card \<in> set (cards s). card_id card = cardId \<longrightarrow> listId card = X"
    have "map (\<lambda>card. if card_id card = cardId then card\<lparr>listId := X\<rparr> else card) (cards s)
          = cards s"
      using own by (intro map_idI) auto
    then show "setCardList cardId X s = s"
      by (simp add: setCardList_def)
  qed
qed

theorem setCardList_idempotent_witness:
  "card_id (cards (seed_state (\<lambda>k. 0)) ! 2) = ''card-3''
   \<and> listId (cards (seed_state (\<lambda>k. 0)) ! 2) = ''list-2''
   \<and> setCardList ''card-3'' ''list-2'' (seed_state (\<lambda>k. 0)) = seed_state (\<lambda>k. 0)
   \<and> setCardList ''card-3'' ''list-3'' (setCardList ''card-3'' ''list-3'' (seed_state (\<lambda>k. 0)))
       = setCardList ''card-3'' ''list-3'' (seed_state (\<lambda>k. 0))"
proof -
  have h: "\<forall>card \<in> set (cards (seed_state (\<lambda>k. 0))).
      card_id card = ''card-3'' \<longrightarrow> listId card = ''list-2''"
    by (simp add: seed_state_def INITIAL_CARDS_def)
  have own: "setCardList ''card-3'' ''list-2'' (seed_state (\<lambda>k. 0)) = seed_state (\<lambda>k. 0)"
    using h setCardList_idempotent [of "''card-3''" "''list-2''" "seed_state (\<lambda>k. 0)"] by blast
  have twice: "setCardList ''card-3'' ''list-3'' (setCardList ''card-3'' ''list-3'' (seed_state (\<lambda>k. 0)))
      = setCardList ''card-3'' ''list-3'' (seed_state (\<lambda>k. 0))"
    using setCardList_idempotent [of "''card-3''" "''list-3''" "seed_state (\<lambda>k. 0)"] by blast
  have "card_id (cards (seed_state (\<lambda>k. 0)) ! 2) = ''card-3''"
    and "listId (cards (seed_state (\<lambda>k. 0)) ! 2) = ''list-2''"
    by (simp_all add: seed_state_def INITIAL_CARDS_def)
  with own twice show ?thesis by simp
qed

text \<open>
  C4. \<open>reorderCards\<close> returns what \<open>setCardList\<close> returns for the card and the target list,
  whatever the source list is (\<open>null\<close> included); as one step of the store it is the same
  step.
\<close>

theorem reorderCards_is_setCardList:
  "reorderCards sourceListId cardId targetListId s = setCardList cardId targetListId s
   \<and> reorderCards sourceListId cardId targetListId s = reorderCards None cardId targetListId s
   \<and> step s (ReorderCards sourceListId cardId targetListId)
       = step s (SetCardList cardId targetListId)"
  by (simp add: reorderCards_def)

theorem reorderCards_is_setCardList_witness:
  "cards (reorderCards None ''card-3'' ''list-3'' (seed_state (\<lambda>k. 0)))
     = cards (setCardList ''card-3'' ''list-3'' (seed_state (\<lambda>k. 0)))
   \<and> map listId (cards (reorderCards None ''card-3'' ''list-3'' (seed_state (\<lambda>k. 0))))
     = [''list-1'', ''list-1'', ''list-3'', ''list-3'']
   \<and> map listId (cards (reorderCards (Some ''list-2'') ''card-3'' ''list-3'' (seed_state (\<lambda>k. 0))))
     = [''list-1'', ''list-1'', ''list-3'', ''list-3'']"
proof -
  have eq: "reorderCards None ''card-3'' ''list-3'' (seed_state (\<lambda>k. 0))
      = setCardList ''card-3'' ''list-3'' (seed_state (\<lambda>k. 0))"
    and eq': "reorderCards (Some ''list-2'') ''card-3'' ''list-3'' (seed_state (\<lambda>k. 0))
      = setCardList ''card-3'' ''list-3'' (seed_state (\<lambda>k. 0))"
    using reorderCards_is_setCardList [of None "''card-3''" "''list-3''" "seed_state (\<lambda>k. 0)"]
      reorderCards_is_setCardList [of "Some ''list-2''" "''card-3''" "''list-3''" "seed_state (\<lambda>k. 0)"]
    by simp_all
  have "map listId (cards (setCardList ''card-3'' ''list-3'' (seed_state (\<lambda>k. 0))))
      = [''list-1'', ''list-1'', ''list-3'', ''list-3'']"
    by (simp add: setCardList_def seed_state_def INITIAL_CARDS_def)
  then show ?thesis
    by (simp add: eq eq')
qed

subsection \<open>The lists only grow\<close>







lemma stale_closure_orders:
  "map list_order (lists_st (run (seed_state (\<lambda>k. 0))
      [AddList 3 1762041600000 ''Backlog'', AddList 3 1762041600001 ''Later'']))
   = [0, 1, 2, 3, 3]"
  by (simp add: run_def addList_def seed_state_def INITIAL_LISTS_def)

text \<open>
  C8. \<open>updateCard\<close> keeps the number and the places of the cards; every card keeps its id,
  its list and its creation instant; a card with the given id gets the new title and
  description, and every other card is the card it was.
\<close>

theorem updateCard_only_text:
  "length (cards (updateCard cardId newTitle newDescription s)) = length (cards s)
   \<and> (\<forall>i < length (cards s).
        card_id (cards (updateCard cardId newTitle newDescription s) ! i) = card_id (cards s ! i)
      \<and> listId (cards (updateCard cardId newTitle newDescription s) ! i) = listId (cards s ! i)
      \<and> createdAt (cards (updateCard cardId newTitle newDescription s) ! i)
          = createdAt (cards s ! i)
      \<and> (if card_id (cards s ! i) = cardId
          then card_title (cards (updateCard cardId newTitle newDescription s) ! i) = newTitle
             \<and> description (cards (updateCard cardId newTitle newDescription s) ! i)
                 = newDescription
          else cards (updateCard cardId newTitle newDescription s) ! i = cards s ! i))"
  by (simp add: updateCard_def)

theorem updateCard_only_text_witness:
  "(1::nat) < length (cards (seed_state (\<lambda>k. 0)))
   \<and> card_id (cards (seed_state (\<lambda>k. 0)) ! 1) = ''card-2''
   \<and> card_id (cards (updateCard ''card-2'' ''T'' ''D'' (seed_state (\<lambda>k. 0))) ! 1) = ''card-2''
   \<and> listId (cards (updateCard ''card-2'' ''T'' ''D'' (seed_state (\<lambda>k. 0))) ! 1) = ''list-1''
   \<and> createdAt (cards (updateCard ''card-2'' ''T'' ''D'' (seed_state (\<lambda>k. 0))) ! 1) = - 1800000
   \<and> card_title (cards (updateCard ''card-2'' ''T'' ''D'' (seed_state (\<lambda>k. 0))) ! 1) = ''T''
   \<and> description (cards (updateCard ''card-2'' ''T'' ''D'' (seed_state (\<lambda>k. 0))) ! 1) = ''D''"
proof -
  have h: "(1::nat) < length (cards (seed_state (\<lambda>k. 0)))"
    and c: "card_id (cards (seed_state (\<lambda>k. 0)) ! 1) = ''card-2''"
    and l: "listId (cards (seed_state (\<lambda>k. 0)) ! 1) = ''list-1''"
    and t: "createdAt (cards (seed_state (\<lambda>k. 0)) ! 1) = - 1800000"
    by (simp_all add: seed_state_def INITIAL_CARDS_def)
  show ?thesis
    using h c l t updateCard_only_text [of "''card-2''" "''T''" "''D''" "seed_state (\<lambda>k. 0)"]
    by auto
qed

text \<open>
  C10. Each callback writes one field of the state: the four card callbacks leave the
  lists, the theme and the search term as they are; \<open>addList\<close> leaves the cards, the theme
  and the search term; \<open>toggleTheme\<close> flips the theme and leaves the rest; \<open>setSearchTerm\<close>
  stores the term and leaves the rest.
\<close>

theorem callbacks_frame:
  "lists_st (setCardList c l s) = lists_st s \<and> theme (setCardList c l s) = theme s
     \<and> searchTerm (setCardList c l s) = searchTerm s
   \<and> lists_st (addCard now now' l t d s) = lists_st s
     \<and> theme (addCard now now' l t d s) = theme s
     \<and> searchTerm (addCard now now' l t d s) = searchTerm s
   \<and> lists_st (updateCard c t d s) = lists_st s \<and> theme (updateCard c t d s) = theme s
     \<and> searchTerm (updateCard c t d s) = searchTerm s
   \<and> lists_st (deleteCard c s) = lists_st s \<and> theme (deleteCard c s) = theme s
     \<and> searchTerm (deleteCard c s) = searchTerm s
   \<and> cards (addList n now t s) = cards s \<and> theme (addList n now t s) = theme s
     \<and> searchTerm (addList n now t s) = searchTerm s
   \<and> lists_st (toggleTheme s) = lists_st s \<and> cards (toggleTheme s) = cards s
     \<and> searchTerm (toggleTheme s) = searchTerm s \<and> theme (toggleTheme s) \<noteq> theme s
   \<and> lists_st (setSearchTerm term s) = lists_st s \<and> cards (setSearchTerm term s) = cards s
     \<and> theme (setSearchTerm term s) = theme s \<and> searchTerm (setSearchTerm term s) = term"
  by (simp add: setCardList_def addCard_def updateCard_def deleteCard_def addList_def
      toggleTheme_def setSearchTerm_def)

theorem callbacks_frame_witness:
  "lists_st (deleteCard ''card-1'' (seed_state (\<lambda>k. 0))) = INITIAL_LISTS
   \<and> theme (addCard 5 6 ''list-1'' ''t'' ''d'' (seed_state (\<lambda>k. 0))) = Light
   \<and> cards (addList 3 5 ''t'' (seed_state (\<lambda>k. 0))) = INITIAL_CARDS (\<lambda>k. 0)
   \<and> theme (toggleTheme (seed_state (\<lambda>k. 0))) = Dark
   \<and> cards (toggleTheme (seed_state (\<lambda>k. 0))) = INITIAL_CARDS (\<lambda>k. 0)
   \<and> searchTerm (setSearchTerm ''milk'' (seed_state (\<lambda>k. 0))) = ''milk''
   \<and> theme (setSearchTerm ''milk'' (seed_state (\<lambda>k. 0))) = Light"
proof -
  note inst = callbacks_frame [of "''card-1''" "''list-1''" "seed_state (\<lambda>k. 0)" 5 6 "''t''" "''d''"
      3 "''milk''"]
  have seed: "lists_st (seed_state (\<lambda>k. 0)) = INITIAL_LISTS" "cards (seed_state (\<lambda>k. 0)) = INITIAL_CARDS (\<lambda>k. 0)"
    "theme (seed_state (\<lambda>k. 0)) = Light"
    by (simp_all add: seed_state_def)
  have "theme (toggleTheme (seed_state (\<lambda>k. 0))) = Dark"
    using inst seed(3) by (cases "theme (toggleTheme (seed_state (\<lambda>k. 0)))") simp_all
  then show ?thesis
    using inst seed by simp
qed

subsection \<open>The search projection\<close>






subsection \<open>Decimal digits\<close>

lemma digit_char_numeral:
  "digit_char 0 = CHR ''0''" "digit_char 1 = CHR ''1''" "digit_char 2 = CHR ''2''"
  "digit_char 3 = CHR ''3''" "digit_char 4 = CHR ''4''" "digit_char 5 = CHR ''5''"
  "digit_char 6 = CHR ''6''" "digit_char 7 = CHR ''7''" "digit_char 8 = CHR ''8''"
  "digit_char 9 = CHR ''9''" "digit_char (Suc 0) = CHR ''1''"
  by code_simp+

lemma digit_val_digit_char: "d < 10 \<Longrightarrow> digit_val (digit_char d) = d"
  by (simp add: digit_val_def digit_char_def)

lemma is_digit_digit_char: "d < 10 \<Longrightarrow> is_digit (digit_char d)"
  by (simp add: is_digit_def digit_char_def)

lemma nat_of_digits_snoc: "nat_of_digits (ds @ [c]) = 10 * nat_of_digits ds + digit_val c"
  by (simp add: nat_of_digits_def)

lemma nat_of_digits_string_of_nat: "nat_of_digits (string_of_nat n) = n"
proof (induction n rule: string_of_nat.induct)
  case (1 n)
  show ?case
  proof (cases "n < 10")
    case True
    then show ?thesis
      by (simp add: string_of_nat.simps [of n] nat_of_digits_def digit_val_digit_char)
  next
    case False
    then have "nat_of_digits (string_of_nat n) = 10 * (n div 10) + n mod 10"
      using "1.IH" by (simp add: string_of_nat.simps [of n] nat_of_digits_snoc digit_val_digit_char)
    then show ?thesis by simp
  qed
qed

lemma string_of_nat_digits: "string_of_nat n \<noteq> [] \<and> (\<forall>c \<in> set (string_of_nat n). is_digit c)"
proof (induction n rule: string_of_nat.induct)
  case (1 n)
  show ?case
  proof (cases "n < 10")
    case True
    then show ?thesis
      by (simp add: string_of_nat.simps [of n] is_digit_digit_char)
  next
    case False
    then show ?thesis
      using "1.IH" by (simp add: string_of_nat.simps [of n] is_digit_digit_char)
  qed
qed

lemma string_of_nat_inj: "string_of_nat m = string_of_nat n \<Longrightarrow> m = n"
  by (metis nat_of_digits_string_of_nat)

lemma string_of_nat_no_minus: "string_of_nat n \<noteq> CHR ''-'' # ds"
proof
  assume eq: "string_of_nat n = CHR ''-'' # ds"
  have "\<forall>c \<in> set (string_of_nat n). is_digit c"
    using string_of_nat_digits by blast
  with eq have "is_digit CHR ''-''" by simp
  then show False by (simp add: is_digit_def)
qed

lemma string_of_number_inj: "string_of_number i = string_of_number j \<Longrightarrow> i = j"
proof -
  assume eq: "string_of_number i = string_of_number j"
  consider "i < 0" "j < 0" | "i < 0" "\<not> j < 0" | "\<not> i < 0" "j < 0" | "\<not> i < 0" "\<not> j < 0"
    by blast
  then show "i = j"
  proof cases
    case 1
    with eq have "nat (- i) = nat (- j)"
      by (simp add: string_of_number_def string_of_nat_inj)
    with 1 show ?thesis by simp
  next
    case 2
    with eq show ?thesis
      using string_of_nat_no_minus [of "nat j" "string_of_nat (nat (- i))"]
      by (simp add: string_of_number_def)
  next
    case 3
    with eq show ?thesis
      using string_of_nat_no_minus [of "nat i" "string_of_nat (nat (- j))"]
      by (simp add: string_of_number_def)
  next
    case 4
    with eq have "nat i = nat j"
      by (simp add: string_of_number_def string_of_nat_inj)
    with 4 show ?thesis by simp
  qed
qed

subsection \<open>Uniqueness of the ids\<close>

lemma cards_step_AddCard:
  "map card_id (cards (step s (AddCard now now' l t d)))
   = map card_id (cards s) @ [card_key now]"
  by (simp add: addCard_def card_key_def)

lemma cards_step_other_distinct:
  assumes "distinct (map card_id (cards s))" "card_instants [a] = []"
  shows "distinct (map card_id (cards (step s a)))"
  using assms
  by (cases a)
    (simp_all add: setCardList_def updateCard_def deleteCard_def addList_def
      toggleTheme_def setSearchTerm_def reorderCards_def o_def distinct_map_filter
      if_distrib [of card_id] cong: if_cong)

lemma cards_step_other_subset:
  assumes "card_instants [a] = []"
  shows "card_id ` set (cards (step s a)) \<subseteq> card_id ` set (cards s)"
  using assms
  by (cases a)
    (auto simp add: setCardList_def updateCard_def deleteCard_def addList_def
      toggleTheme_def setSearchTerm_def reorderCards_def)

lemma card_instants_Cons:
  "card_instants (a # acts) = card_instants [a] @ card_instants acts"
  by (cases a) simp_all

lemma card_ids_run:
  assumes "distinct (map card_id (cards s))"
    and "distinct (card_instants acts)"
    and "\<forall>n \<in> set (card_instants acts). card_key n \<notin> card_id ` set (cards s)"
  shows "distinct (map card_id (cards (run s acts)))"
  using assms
proof (induction acts arbitrary: s)
  case Nil
  then show ?case by (simp add: run_def)
next
  case (Cons a acts)
  have run_eq: "run s (a # acts) = run (step s a) acts"
    by (simp add: run_def)
  show ?case
  proof (cases "card_instants [a] = []")
    case True
    then have inst: "card_instants (a # acts) = card_instants acts"
      using card_instants_Cons [of a acts] by simp
    have d: "distinct (map card_id (cards (step s a)))"
      using Cons.prems(1) True by (rule cards_step_other_distinct)
    have fresh: "\<forall>n \<in> set (card_instants acts).
        card_key n \<notin> card_id ` set (cards (step s a))"
    proof
      fix n assume "n \<in> set (card_instants acts)"
      then have "card_key n \<notin> card_id ` set (cards s)"
        using Cons.prems(3) by (simp add: inst)
      then show "card_key n \<notin> card_id ` set (cards (step s a))"
        using cards_step_other_subset [OF True, of s] by (rule contra_subsetD [rotated])
    qed
    have dd: "distinct (card_instants acts)"
      using Cons.prems(2) by (simp add: inst)
    show ?thesis
      unfolding run_eq using d dd fresh by (rule Cons.IH)
  next
    case False
    then obtain now now' l t d where a: "a = AddCard now now' l t d"
      by (cases a) simp_all
    have inst: "card_instants (a # acts) = now # card_instants acts"
      by (simp add: a)
    have ids: "map card_id (cards (step s a)) = map card_id (cards s) @ [card_key now]"
      unfolding a by (rule cards_step_AddCard)
    have new: "card_key now \<notin> card_id ` set (cards s)"
      using Cons.prems(3) inst by simp
    have d: "distinct (map card_id (cards (step s a)))"
      using Cons.prems(1) new by (simp add: ids)
    have set_ids: "card_id ` set (cards (step s a))
        = insert (card_key now) (card_id ` set (cards s))"
      using arg_cong [OF ids, of set] by simp
    have fresh: "\<forall>n \<in> set (card_instants acts).
        card_key n \<notin> card_id ` set (cards (step s a))"
    proof
      fix n assume n: "n \<in> set (card_instants acts)"
      then have "n \<noteq> now" using Cons.prems(2) inst by auto
      then have "card_key n \<noteq> card_key now"
        using string_of_number_inj by (auto simp: card_key_def)
      moreover have "card_key n \<notin> card_id ` set (cards s)"
        using Cons.prems(3) inst n by simp
      ultimately show "card_key n \<notin> card_id ` set (cards (step s a))"
        by (simp add: set_ids)
    qed
    have dd: "distinct (card_instants acts)"
      using Cons.prems(2) by (simp add: inst)
    show ?thesis
      unfolding run_eq using d dd fresh by (rule Cons.IH)
  qed
qed

lemma lists_step_AddList:
  "map list_id (lists_st (step s (AddList rendered now t)))
   = map list_id (lists_st s) @ [list_key now]"
  by (simp add: addList_def list_key_def)

lemma lists_step_other:
  assumes "list_instants [a] = []"
  shows "lists_st (step s a) = lists_st s"
  using assms
  by (cases a)
    (simp_all add: setCardList_def addCard_def updateCard_def deleteCard_def
      toggleTheme_def setSearchTerm_def reorderCards_def)

lemma list_instants_Cons:
  "list_instants (a # acts) = list_instants [a] @ list_instants acts"
  by (cases a) simp_all

lemma list_ids_run:
  assumes "distinct (map list_id (lists_st s))"
    and "distinct (list_instants acts)"
    and "\<forall>n \<in> set (list_instants acts). list_key n \<notin> list_id ` set (lists_st s)"
  shows "distinct (map list_id (lists_st (run s acts)))"
  using assms
proof (induction acts arbitrary: s)
  case Nil
  then show ?case by (simp add: run_def)
next
  case (Cons a acts)
  have run_eq: "run s (a # acts) = run (step s a) acts"
    by (simp add: run_def)
  show ?case
  proof (cases "list_instants [a] = []")
    case True
    then have inst: "list_instants (a # acts) = list_instants acts"
      using list_instants_Cons [of a acts] by simp
    have same: "lists_st (step s a) = lists_st s"
      using True by (rule lists_step_other)
    have d: "distinct (map list_id (lists_st (step s a)))"
      using Cons.prems(1) by (simp add: same)
    have fresh: "\<forall>n \<in> set (list_instants acts). list_key n \<notin> list_id ` set (lists_st (step s a))"
      using Cons.prems(3) by (simp add: same inst)
    have dd: "distinct (list_instants acts)"
      using Cons.prems(2) by (simp add: inst)
    show ?thesis
      unfolding run_eq using d dd fresh by (rule Cons.IH)
  next
    case False
    then obtain rendered now t where a: "a = AddList rendered now t"
      by (cases a) simp_all
    have inst: "list_instants (a # acts) = now # list_instants acts"
      by (simp add: a)
    have ids: "map list_id (lists_st (step s a)) = map list_id (lists_st s) @ [list_key now]"
      unfolding a by (rule lists_step_AddList)
    have new: "list_key now \<notin> list_id ` set (lists_st s)"
      using Cons.prems(3) inst by simp
    have d: "distinct (map list_id (lists_st (step s a)))"
      using Cons.prems(1) new by (simp add: ids)
    have set_ids: "list_id ` set (lists_st (step s a))
        = insert (list_key now) (list_id ` set (lists_st s))"
      using arg_cong [OF ids, of set] by simp
    have fresh: "\<forall>n \<in> set (list_instants acts). list_key n \<notin> list_id ` set (lists_st (step s a))"
    proof
      fix n assume n: "n \<in> set (list_instants acts)"
      then have "n \<noteq> now" using Cons.prems(2) inst by auto
      then have "list_key n \<noteq> list_key now"
        using string_of_number_inj by (auto simp: list_key_def)
      moreover have "list_key n \<notin> list_id ` set (lists_st s)"
        using Cons.prems(3) inst n by simp
      ultimately show "list_key n \<notin> list_id ` set (lists_st (step s a))"
        by (simp add: set_ids)
    qed
    have dd: "distinct (list_instants acts)"
      using Cons.prems(2) by (simp add: inst)
    show ?thesis
      unfolding run_eq using d dd fresh by (rule Cons.IH)
  qed
qed

lemma string_of_number_small:
  "string_of_number 1 = ''1''" "string_of_number 2 = ''2''"
  "string_of_number 3 = ''3''" "string_of_number 4 = ''4''"
  by (simp_all add: string_of_number_def string_of_nat.simps digit_char_numeral)

lemma seed_card_ids: "card_id ` set (INITIAL_CARDS t0) = card_key ` {1, 2, 3, 4}"
  by (simp add: INITIAL_CARDS_def card_key_def string_of_number_small insert_commute)

lemma seed_list_ids: "list_id ` set INITIAL_LISTS = list_key ` {1, 2, 3}"
  by (simp add: INITIAL_LISTS_def list_key_def string_of_number_small insert_commute)

lemma card_key_inj: "card_key m = card_key n \<Longrightarrow> m = n"
  by (simp add: card_key_def string_of_number_inj)

lemma list_key_inj: "list_key m = list_key n \<Longrightarrow> m = n"
  by (simp add: list_key_def string_of_number_inj)

text \<open>
  C1, as the code has it. From the seed state, the ids of the lists are pairwise different
  and the ids of the cards are pairwise different after every sequence of operations in
  which no two calls of \<open>addCard\<close> read the same instant for the id, no two calls of
  \<open>addList\<close> do, and no instant read renders as the number of a seed id (1 to 4 for the
  cards, 1 to 3 for the lists).
\<close>

theorem ids_unique_when_instants_differ:
  assumes "distinct (card_instants acts)"
    and "set (card_instants acts) \<inter> {1, 2, 3, 4} = {}"
    and "distinct (list_instants acts)"
    and "set (list_instants acts) \<inter> {1, 2, 3} = {}"
  shows "distinct (map list_id (lists_st (run (seed_state t0) acts)))
       \<and> distinct (map card_id (cards (run (seed_state t0) acts)))"
proof
  have d0: "distinct (map list_id (lists_st (seed_state t0)))"
    by (simp add: seed_state_def INITIAL_LISTS_def)
  have fresh: "\<forall>n \<in> set (list_instants acts).
      list_key n \<notin> list_id ` set (lists_st (seed_state t0))"
  proof
    fix n assume n: "n \<in> set (list_instants acts)"
    show "list_key n \<notin> list_id ` set (lists_st (seed_state t0))"
    proof
      assume "list_key n \<in> list_id ` set (lists_st (seed_state t0))"
      then have "list_key n \<in> list_key ` {1, 2, 3}"
        by (simp only: seed_state_def IKanbanState.simps seed_list_ids)
      then obtain m where "m \<in> {1, 2, 3}" "list_key n = list_key m" by blast
      then have "n \<in> {1, 2, 3}" using list_key_inj by blast
      with n assms(4) show False by blast
    qed
  qed
  show "distinct (map list_id (lists_st (run (seed_state t0) acts)))"
    using d0 assms(3) fresh by (rule list_ids_run)
next
  have d0: "distinct (map card_id (cards (seed_state t0)))"
    by (simp add: seed_state_def INITIAL_CARDS_def)
  have fresh: "\<forall>n \<in> set (card_instants acts).
      card_key n \<notin> card_id ` set (cards (seed_state t0))"
  proof
    fix n assume n: "n \<in> set (card_instants acts)"
    show "card_key n \<notin> card_id ` set (cards (seed_state t0))"
    proof
      assume "card_key n \<in> card_id ` set (cards (seed_state t0))"
      then have "card_key n \<in> card_key ` {1, 2, 3, 4}"
        by (simp only: seed_state_def IKanbanState.simps seed_card_ids)
      then obtain m where "m \<in> {1, 2, 3, 4}" "card_key n = card_key m" by blast
      then have "n \<in> {1, 2, 3, 4}" using card_key_inj by blast
      with n assms(2) show False by blast
    qed
  qed
  show "distinct (map card_id (cards (run (seed_state t0) acts)))"
    using d0 assms(1) fresh by (rule card_ids_run)
qed

theorem ids_unique_when_instants_differ_witness:
  "distinct (card_instants
      [AddCard 1762041600000 1762041600000 ''list-1'' ''a'' ''d'',
       AddList 3 1762041600000 ''Backlog'', DeleteCard ''card-1'',
       AddCard 1762041600001 1762041600001 ''list-2'' ''b'' ''d''])
   \<and> distinct (map list_id (lists_st (run (seed_state (\<lambda>k. 0))
      [AddCard 1762041600000 1762041600000 ''list-1'' ''a'' ''d'',
       AddList 3 1762041600000 ''Backlog'', DeleteCard ''card-1'',
       AddCard 1762041600001 1762041600001 ''list-2'' ''b'' ''d''])))
   \<and> distinct (map card_id (cards (run (seed_state (\<lambda>k. 0))
      [AddCard 1762041600000 1762041600000 ''list-1'' ''a'' ''d'',
       AddList 3 1762041600000 ''Backlog'', DeleteCard ''card-1'',
       AddCard 1762041600001 1762041600001 ''list-2'' ''b'' ''d''])))"
proof -
  let ?acts = "[AddCard 1762041600000 1762041600000 ''list-1'' ''a'' ''d'',
       AddList 3 1762041600000 ''Backlog'', DeleteCard ''card-1'',
       AddCard 1762041600001 1762041600001 ''list-2'' ''b'' ''d'']"
  have h1: "distinct (card_instants ?acts)" by simp
  have h2: "set (card_instants ?acts) \<inter> {1, 2, 3, 4} = {}" by simp
  have h3: "distinct (list_instants ?acts)" by simp
  have h4: "set (list_instants ?acts) \<inter> {1, 2, 3} = {}" by simp
  show ?thesis
    using h1 ids_unique_when_instants_differ [OF h1 h2 h3 h4, of "\<lambda>k. 0"] by simp
qed

text \<open>
  C1, as the claim has it, fails: two calls of \<open>addCard\<close> that read the same instant
  generate the same id, and so do two calls of \<open>addList\<close>.
\<close>

theorem same_instant_duplicate_ids:
  "\<not> (distinct (map list_id (lists_st (run (seed_state (\<lambda>k. 0))
          [AddCard 1762041600000 1762041600000 ''list-1'' ''a'' ''d'',
           AddCard 1762041600000 1762041600000 ''list-1'' ''b'' ''d''])))
      \<and> distinct (map card_id (cards (run (seed_state (\<lambda>k. 0))
          [AddCard 1762041600000 1762041600000 ''list-1'' ''a'' ''d'',
           AddCard 1762041600000 1762041600000 ''list-1'' ''b'' ''d'']))))"
  by (simp add: run_def addCard_def seed_state_def INITIAL_CARDS_def)

lemma same_instant_duplicate_card_ids_values:
  "map card_id (cards (run (seed_state (\<lambda>k. 0))
          [AddCard 1762041600000 1762041600000 ''list-1'' ''a'' ''d'',
           AddCard 1762041600000 1762041600000 ''list-1'' ''b'' ''d'']))
   = [''card-1'', ''card-2'', ''card-3'', ''card-4'',
      ''card-1762041600000'', ''card-1762041600000'']"
  by (simp add: run_def addCard_def seed_state_def INITIAL_CARDS_def string_of_number_def
      string_of_nat.simps digit_char_numeral)

lemma same_instant_duplicate_list_ids_values:
  "map list_id (lists_st (run (seed_state (\<lambda>k. 0))
          [AddList 3 1762041600000 ''a'', AddList 4 1762041600000 ''b'']))
   = [''list-1'', ''list-2'', ''list-3'', ''list-1762041600000'', ''list-1762041600000'']"
  by (simp add: run_def addList_def seed_state_def INITIAL_LISTS_def string_of_number_def
      string_of_nat.simps digit_char_numeral)

subsection \<open>\<open>JSON.parse\<close> reads back what \<open>JSON.stringify\<close> writes\<close>

lemma hex_val_hex_char: "d < 16 \<Longrightarrow> hex_val (hex_char d) = Some d"
  by (auto simp: hex_val_def hex_char_def Let_def)

lemma hex4_control:
  assumes "(of_char c :: nat) < 32"
  shows "hex4 CHR ''0'' CHR ''0'' (hex_char (of_char c div 16)) (hex_char (of_char c mod 16))
         = Some (of_char c)"
proof -
  have z: "hex_val CHR ''0'' = Some 0"
    by (simp add: hex_val_def)
  have hi: "hex_val (hex_char (of_char c div 16)) = Some (of_char c div 16)"
    using assms by (intro hex_val_hex_char) simp
  have lo: "hex_val (hex_char (of_char c mod 16)) = Some (of_char c mod 16)"
    by (intro hex_val_hex_char) simp
  show ?thesis
    by (simp add: hex4_def z hi lo)
qed

lemma parse_chars_escape:
  assumes "parse_chars tl0 = Some (str, rest)"
  shows "parse_chars (escape_char c @ tl0) = Some (c # str, rest)"
proof -
  consider (ctl) "c \<in> {CHR 0x08, CHR 0x09, CHR 0x0A, CHR 0x0C, CHR 0x0D}"
    | (dq) "c = dquote" | (bs) "c = bslash"
    | (low) "c \<notin> {CHR 0x08, CHR 0x09, CHR 0x0A, CHR 0x0C, CHR 0x0D}" "c \<noteq> dquote"
        "c \<noteq> bslash" "(of_char c :: nat) < 32"
    | (plain) "c \<notin> {CHR 0x08, CHR 0x09, CHR 0x0A, CHR 0x0C, CHR 0x0D}" "c \<noteq> dquote"
        "c \<noteq> bslash" "\<not> (of_char c :: nat) < 32"
    by blast
  then show ?thesis
  proof cases
    case ctl
    then show ?thesis
      using assms by (auto simp: escape_char_def unescape_def dquote_def bslash_def)
  next
    case dq
    then show ?thesis
      using assms by (simp add: escape_char_def unescape_def dquote_def bslash_def)
  next
    case bs
    then show ?thesis
      using assms by (simp add: escape_char_def unescape_def dquote_def bslash_def)
  next
    case low
    have esc: "escape_char c = [bslash, CHR ''u'', CHR ''0'', CHR ''0'',
        hex_char (of_char c div 16), hex_char (of_char c mod 16)]"
      using low by (simp add: escape_char_def)
    show ?thesis
      using assms low(4) by (simp add: esc hex4_control dquote_def bslash_def)
  next
    case plain
    have esc: "escape_char c = [c]"
      using plain by (simp add: escape_char_def)
    show ?thesis
      using assms plain by (simp add: esc)
  qed
qed

lemma parse_chars_quote:
  "parse_chars (concat (map escape_char s) @ dquote # rest) = Some (s, rest)"
proof (induction s)
  case Nil
  show ?case by simp
next
  case (Cons c s)
  show ?case
    using parse_chars_escape [OF Cons.IH, of c] by simp
qed

lemma string_of_nat_zero: "string_of_nat 0 = ''0''"
  by (simp add: string_of_nat.simps digit_char_numeral)

lemma string_of_nat_no_leading_zero:
  "1 < length (string_of_nat n) \<Longrightarrow> hd (string_of_nat n) \<noteq> CHR ''0''"
proof (induction n rule: string_of_nat.induct)
  case (1 n)
  show ?case
  proof (cases "n < 10")
    case True
    with "1.prems" show ?thesis
      by (simp add: string_of_nat.simps [of n])
  next
    case False
    let ?m = "n div 10"
    have unfold: "string_of_nat n = string_of_nat ?m @ [digit_char (n mod 10)]"
      using False by (simp add: string_of_nat.simps [of n])
    have ne: "string_of_nat ?m \<noteq> []"
      using string_of_nat_digits by blast
    then have hd_eq: "hd (string_of_nat n) = hd (string_of_nat ?m)"
      by (simp add: unfold)
    show ?thesis
    proof (cases "1 < length (string_of_nat ?m)")
      case True
      then show ?thesis
        using "1.IH" False by (simp add: hd_eq)
    next
      case short: False
      with ne have one: "string_of_nat ?m = [hd (string_of_nat ?m)]"
        by (cases "string_of_nat ?m") auto
      show ?thesis
      proof
        assume "hd (string_of_nat n) = CHR ''0''"
        then have "string_of_nat ?m = string_of_nat 0"
          using one by (simp add: hd_eq string_of_nat_zero)
        then have "?m = 0" by (rule string_of_nat_inj)
        with False show False by simp
      qed
    qed
  qed
qed

lemma takeWhile_digits:
  assumes "\<forall>c \<in> set ds. is_digit c" "rest = [] \<or> \<not> is_digit (hd rest)"
  shows "takeWhile is_digit (ds @ rest) = ds \<and> dropWhile is_digit (ds @ rest) = rest"
proof (cases rest)
  case Nil
  with assms(1) show ?thesis by simp
next
  case (Cons r rs)
  with assms have "\<not> is_digit r" by simp
  with assms(1) Cons show ?thesis
    by (simp add: takeWhile_append2 dropWhile_append2)
qed

lemma parse_digits:
  assumes "num_end rest"
  shows "takeWhile is_digit (string_of_nat n @ rest) = string_of_nat n"
    and "dropWhile is_digit (string_of_nat n @ rest) = rest"
proof -
  have "rest = [] \<or> \<not> is_digit (hd rest)"
    using assms by (auto simp: num_end_def)
  then have "takeWhile is_digit (string_of_nat n @ rest) = string_of_nat n
      \<and> dropWhile is_digit (string_of_nat n @ rest) = rest"
    using string_of_nat_digits [of n] by (intro takeWhile_digits) auto
  then show "takeWhile is_digit (string_of_nat n @ rest) = string_of_nat n"
    and "dropWhile is_digit (string_of_nat n @ rest) = rest"
    by simp_all
qed

lemma string_of_nat_hd_digit: "is_digit (hd (string_of_nat n))"
  using string_of_nat_digits [of n] by (cases "string_of_nat n") auto

lemma parse_number_nat:
  assumes "num_end rest"
  shows "parse_number (string_of_nat n @ rest) = Some (int n, rest)"
proof -
  have ne: "string_of_nat n \<noteq> []"
    using string_of_nat_digits by blast
  have hd_app: "hd (string_of_nat n @ rest) = hd (string_of_nat n)"
    using ne by simp
  have nominus: "hd (string_of_nat n) \<noteq> CHR ''-''"
    using string_of_nat_hd_digit [of n] by (auto simp: is_digit_def)
  have lead: "\<not> (1 < length (string_of_nat n) \<and> hd (string_of_nat n) = CHR ''0'')"
    using string_of_nat_no_leading_zero by blast
  have tail: "\<not> (rest \<noteq> [] \<and> hd rest \<in> {CHR ''.'', CHR ''e'', CHR ''E''})"
    using assms by (auto simp: num_end_def)
  show ?thesis
    unfolding parse_number_def Let_def
    using ne nominus lead tail
    by (simp add: hd_app parse_digits [OF assms] nat_of_digits_string_of_nat)
qed

lemma parse_number_string_of_number:
  assumes "num_end rest"
  shows "parse_number (string_of_number i @ rest) = Some (i, rest)"
proof (cases "i < 0")
  case False
  then show ?thesis
    using parse_number_nat [OF assms, of "nat i"] by (simp add: string_of_number_def)
next
  case True
  have ne: "string_of_nat (nat (- i)) \<noteq> []"
    using string_of_nat_digits by blast
  have lead: "\<not> (1 < length (string_of_nat (nat (- i)))
      \<and> hd (string_of_nat (nat (- i))) = CHR ''0'')"
    using string_of_nat_no_leading_zero by blast
  have tail: "\<not> (rest \<noteq> [] \<and> hd rest \<in> {CHR ''.'', CHR ''e'', CHR ''E''})"
    using assms by (auto simp: num_end_def)
  show ?thesis
    unfolding parse_number_def Let_def
    using True ne lead tail
    by (simp add: string_of_number_def parse_digits [OF assms] nat_of_digits_string_of_nat)
qed

lemma string_of_number_start:
  "\<exists>c cs. string_of_number i = c # cs \<and> (c = CHR ''-'' \<or> is_digit c)"
proof (cases "i < 0")
  case True
  then show ?thesis by (simp add: string_of_number_def)
next
  case False
  have "string_of_nat (nat i) \<noteq> []"
    using string_of_nat_digits by blast
  then obtain c cs where eq: "string_of_nat (nat i) = c # cs"
    by (cases "string_of_nat (nat i)") auto
  then have "is_digit c"
    using string_of_nat_hd_digit [of "nat i"] by simp
  with eq False show ?thesis by (simp add: string_of_number_def)
qed

lemma skip_ws_start: "\<not> is_ws c \<Longrightarrow> skip_ws (c # cs) = c # cs"
  by (simp add: skip_ws_def)

lemma value_start_not_ws: "value_start c \<Longrightarrow> \<not> is_ws c"
  by (auto simp: value_start_def is_ws_def is_digit_def dquote_def)

lemma value_start_not_close: "value_start c \<Longrightarrow> c \<noteq> CHR '']'' \<and> c \<noteq> CHR ''}''"
  by (auto simp: value_start_def is_digit_def dquote_def)

lemma stringify_start: "\<exists>c cs. JSON_stringify v = c # cs \<and> value_start c"
proof (cases v)
  case (JNum i)
  then show ?thesis
    using string_of_number_start [of i] by (auto simp: value_start_def)
next
  case (JArr vs)
  then show ?thesis by (cases vs) (simp_all add: value_start_def)
next
  case (JObj ms)
  then show ?thesis
  proof (cases ms)
    case Nil
    with JObj show ?thesis by (simp add: value_start_def)
  next
    case (Cons m ms')
    with JObj show ?thesis by (cases m) (simp add: value_start_def)
  qed
qed (simp_all add: value_start_def quote_def)

lemma stringify_elems_start:
  "\<exists>c cs. stringify_elems vs = c # cs \<and> (c = CHR '','' \<or> c = CHR '']'')"
  by (cases vs) simp_all

lemma stringify_members_start:
  "\<exists>c cs. stringify_members ms = c # cs \<and> (c = CHR '','' \<or> c = CHR ''}'')"
proof (cases ms)
  case Nil
  then show ?thesis by simp
next
  case (Cons m ms')
  then show ?thesis by (cases m) simp
qed

lemma num_end_elems: "num_end (stringify_elems vs @ rest)"
  using stringify_elems_start [of vs] by (auto simp: num_end_def is_digit_def)

lemma num_end_members: "num_end (stringify_members ms @ rest)"
  using stringify_members_start [of ms] by (auto simp: num_end_def is_digit_def)

lemma strip_prefix_append: "strip_prefix p (p @ r) = Some r"
  by (induction p) simp_all

lemma parse_key_quote: "parse_key (quote k @ CHR '':'' # rest) = Some (k, rest)"
proof -
  have ws: "skip_ws (dquote # concat (map escape_char k) @ dquote # CHR '':'' # rest)
      = dquote # concat (map escape_char k) @ dquote # CHR '':'' # rest"
    by (rule skip_ws_start) (simp add: is_ws_def dquote_def)
  have colon: "skip_ws (CHR '':'' # rest) = CHR '':'' # rest"
    by (rule skip_ws_start) (simp add: is_ws_def)
  show ?thesis
    by (simp add: parse_key_def quote_def ws parse_chars_quote colon)
qed

lemma obj_of_members_distinct:
  assumes "distinct (map fst ms)"
  shows "obj_of_members ms = ms"
proof -
  have gen: "distinct (map fst (acc @ ms))
      \<Longrightarrow> foldl (\<lambda>al (k, v). AList.update k v al) acc ms = acc @ ms" for acc
  proof (induction ms arbitrary: acc)
    case Nil
    show ?case by simp
  next
    case (Cons m ms)
    obtain k v where m: "m = (k, v)" by (cases m)
    have "k \<notin> fst ` set acc"
      using Cons.prems by (auto simp: m)
    then have upd: "AList.update k v acc = acc @ [(k, v)]"
      by (induction acc) auto
    have "distinct (map fst ((acc @ [(k, v)]) @ ms))"
      using Cons.prems by (simp add: m)
    then have "foldl (\<lambda>al (k, v). AList.update k v al) (acc @ [(k, v)]) ms
        = (acc @ [(k, v)]) @ ms"
      by (rule Cons.IH)
    then show ?case by (simp add: m upd)
  qed
  show ?thesis
    using gen [of "[]"] assms by (simp add: obj_of_members_def)
qed

lemma parse_value_atom:
  assumes "skip_ws s = c # cs"
  shows "parse_value (Suc n) s =
     (if c = dquote then
            (case parse_chars cs of
               None \<Rightarrow> None
             | Some (str, r) \<Rightarrow> Some (JStr str, r))
          else if c = CHR ''['' then
            (case skip_ws cs of
               [] \<Rightarrow> None
             | c' # r \<Rightarrow>
                 if c' = CHR '']'' then Some (JArr [], r)
                 else (case parse_value n cs of
                         None \<Rightarrow> None
                       | Some (v, r1) \<Rightarrow>
                           (case parse_elems n r1 of
                              None \<Rightarrow> None
                            | Some (vs, r2) \<Rightarrow> Some (JArr (v # vs), r2))))
          else if c = CHR ''{'' then
            (case skip_ws cs of
               [] \<Rightarrow> None
             | c' # r \<Rightarrow>
                 if c' = CHR ''}'' then Some (JObj [], r)
                 else (case parse_key cs of
                         None \<Rightarrow> None
                       | Some (k, r0) \<Rightarrow>
                           (case parse_value n r0 of
                              None \<Rightarrow> None
                            | Some (v, r1) \<Rightarrow>
                                (case parse_members n r1 of
                                   None \<Rightarrow> None
                                 | Some (ms, r2) \<Rightarrow>
                                     Some (JObj (obj_of_members ((k, v) # ms)), r2)))))
          else if c = CHR ''t'' then
            (case strip_prefix ''rue'' cs of None \<Rightarrow> None | Some r \<Rightarrow> Some (JBool True, r))
          else if c = CHR ''f'' then
            (case strip_prefix ''alse'' cs of None \<Rightarrow> None | Some r \<Rightarrow> Some (JBool False, r))
          else if c = CHR ''n'' then
            (case strip_prefix ''ull'' cs of None \<Rightarrow> None | Some r \<Rightarrow> Some (JNull, r))
          else (case parse_number (c # cs) of
                  None \<Rightarrow> None
                | Some (i, r) \<Rightarrow> Some (JNum i, r)))"
  using assms by simp

lemma parse_elems_step:
  assumes "skip_ws s = c # r"
  shows "parse_elems (Suc n) s =
     (if c = CHR '']'' then Some ([], r)
      else if c = CHR '','' then
        (case parse_value n r of
           None \<Rightarrow> None
         | Some (v, r1) \<Rightarrow>
             (case parse_elems n r1 of
                None \<Rightarrow> None
              | Some (vs, r2) \<Rightarrow> Some (v # vs, r2)))
      else None)"
  using assms by simp

lemma parse_members_step:
  assumes "skip_ws s = c # r"
  shows "parse_members (Suc n) s =
     (if c = CHR ''}'' then Some ([], r)
      else if c = CHR '','' then
        (case parse_key r of
           None \<Rightarrow> None
         | Some (k, r0) \<Rightarrow>
             (case parse_value n r0 of
                None \<Rightarrow> None
              | Some (v, r1) \<Rightarrow>
                  (case parse_members n r1 of
                     None \<Rightarrow> None
                   | Some (ms, r2) \<Rightarrow> Some ((k, v) # ms, r2))))
      else None)"
  using assms by simp

declare parse_value.simps [simp del] parse_elems.simps [simp del] parse_members.simps [simp del]

lemma skip_ws_stringify: "skip_ws (JSON_stringify v @ rest) = JSON_stringify v @ rest"
proof -
  obtain c cs where "JSON_stringify v = c # cs" "value_start c"
    using stringify_start by blast
  then show ?thesis
    by (simp add: skip_ws_start value_start_not_ws)
qed

lemma parse_value_null: "parse_value (Suc n) (''null'' @ rest) = Some (JNull, rest)"
proof -
  have "skip_ws (''null'' @ rest) = CHR ''n'' # ''ull'' @ rest"
    by (simp add: skip_ws_def is_ws_def)
  from parse_value_atom [OF this, of n] show ?thesis
    using strip_prefix_append [of "''ull''" rest] by (simp add: dquote_def)
qed

lemma parse_value_true: "parse_value (Suc n) (''true'' @ rest) = Some (JBool True, rest)"
proof -
  have "skip_ws (''true'' @ rest) = CHR ''t'' # ''rue'' @ rest"
    by (simp add: skip_ws_def is_ws_def)
  from parse_value_atom [OF this, of n] show ?thesis
    using strip_prefix_append [of "''rue''" rest] by (simp add: dquote_def)
qed

lemma parse_value_false: "parse_value (Suc n) (''false'' @ rest) = Some (JBool False, rest)"
proof -
  have "skip_ws (''false'' @ rest) = CHR ''f'' # ''alse'' @ rest"
    by (simp add: skip_ws_def is_ws_def)
  from parse_value_atom [OF this, of n] show ?thesis
    using strip_prefix_append [of "''alse''" rest] by (simp add: dquote_def)
qed

lemma parse_value_string: "parse_value (Suc n) (quote s @ rest) = Some (JStr s, rest)"
proof -
  have "skip_ws (quote s @ rest) = dquote # concat (map escape_char s) @ dquote # rest"
    by (simp add: quote_def skip_ws_def is_ws_def dquote_def)
  from parse_value_atom [OF this, of n] show ?thesis
    by (simp add: parse_chars_quote)
qed

lemma parse_value_number:
  assumes "num_end rest"
  shows "parse_value (Suc n) (string_of_number i @ rest) = Some (JNum i, rest)"
proof -
  obtain c cs where eq: "string_of_number i = c # cs" and c: "c = CHR ''-'' \<or> is_digit c"
    using string_of_number_start by blast
  have nows: "\<not> is_ws c"
    using c by (auto simp: is_ws_def is_digit_def)
  have ws: "skip_ws (string_of_number i @ rest) = c # (cs @ rest)"
    using nows by (simp add: eq skip_ws_start)
  have other: "c \<noteq> dquote" "c \<noteq> CHR ''[''" "c \<noteq> CHR ''{''" "c \<noteq> CHR ''t''"
    "c \<noteq> CHR ''f''" "c \<noteq> CHR ''n''"
    using c by (auto simp: is_digit_def dquote_def)
  have num: "parse_number (c # (cs @ rest)) = Some (i, rest)"
    using parse_number_string_of_number [OF assms, of i] by (simp add: eq)
  show ?thesis
    by (simp only: parse_value_atom [OF ws, of n] other if_False num option.case prod.case)
qed

lemma parse_value_empty_array: "parse_value (Suc n) (''[]'' @ rest) = Some (JArr [], rest)"
proof -
  have ws: "skip_ws (''[]'' @ rest) = CHR ''['' # CHR '']'' # rest"
    by (simp add: skip_ws_def is_ws_def)
  have ws2: "skip_ws (CHR '']'' # rest) = CHR '']'' # rest"
    by (simp add: skip_ws_def is_ws_def)
  show ?thesis
    using parse_value_atom [OF ws, of n] by (simp add: ws2 dquote_def)
qed

lemma parse_value_empty_object: "parse_value (Suc n) (''{}'' @ rest) = Some (JObj [], rest)"
proof -
  have ws: "skip_ws (''{}'' @ rest) = CHR ''{'' # CHR ''}'' # rest"
    by (simp add: skip_ws_def is_ws_def)
  have ws2: "skip_ws (CHR ''}'' # rest) = CHR ''}'' # rest"
    by (simp add: skip_ws_def is_ws_def)
  show ?thesis
    using parse_value_atom [OF ws, of n] by (simp add: ws2 dquote_def)
qed

lemma parse_value_array:
  assumes v: "parse_value n (JSON_stringify v @ tl0) = Some (v, tl0)"
    and vs: "parse_elems n tl0 = Some (vs, rest)"
  shows "parse_value (Suc n) (CHR ''['' # JSON_stringify v @ tl0) = Some (JArr (v # vs), rest)"
proof -
  obtain c cs where eq: "JSON_stringify v = c # cs" and c: "value_start c"
    using stringify_start by blast
  have ws: "skip_ws (CHR ''['' # JSON_stringify v @ tl0) = CHR ''['' # JSON_stringify v @ tl0"
    by (simp add: skip_ws_def is_ws_def)
  have ws2: "skip_ws (JSON_stringify v @ tl0) = c # (cs @ tl0)"
    using skip_ws_stringify [of v tl0] by (simp add: eq)
  have nc: "c \<noteq> CHR '']''"
    using c value_start_not_close by blast
  show ?thesis
    using nc by (simp add: parse_value_atom [OF ws, of n] ws2 v vs dquote_def)
qed

lemma parse_value_object:
  assumes v: "parse_value n (JSON_stringify v @ tl0) = Some (v, tl0)"
    and ms: "parse_members n tl0 = Some (ms, rest)"
    and d: "distinct (map fst ((k, v) # ms))"
  shows "parse_value (Suc n) (CHR ''{'' # quote k @ CHR '':'' # JSON_stringify v @ tl0)
         = Some (JObj ((k, v) # ms), rest)"
proof -
  let ?body = "quote k @ CHR '':'' # JSON_stringify v @ tl0"
  have ws: "skip_ws (CHR ''{'' # ?body) = CHR ''{'' # ?body"
    by (simp add: skip_ws_def is_ws_def)
  have ws2: "skip_ws ?body = dquote # (concat (map escape_char k) @ [dquote]) @ CHR '':'' # JSON_stringify v @ tl0"
    by (simp add: quote_def skip_ws_def is_ws_def dquote_def)
  have key: "parse_key ?body = Some (k, JSON_stringify v @ tl0)"
    by (rule parse_key_quote)
  have obj: "obj_of_members ((k, v) # ms) = (k, v) # ms"
    using d by (rule obj_of_members_distinct)
  have "parse_value (Suc n) (CHR ''{'' # ?body) = Some (JObj (obj_of_members ((k, v) # ms)), rest)"
    by (simp add: parse_value_atom [OF ws, of n] ws2 key v ms dquote_def)
  then show ?thesis
    by (simp only: obj)
qed

lemma parse_elems_close: "parse_elems (Suc n) ('']'' @ rest) = Some ([], rest)"
proof -
  have ws: "skip_ws ('']'' @ rest) = CHR '']'' # rest"
    by (simp add: skip_ws_def is_ws_def)
  show ?thesis
    using parse_elems_step [OF ws, of n] by simp
qed

lemma parse_elems_more:
  assumes v: "parse_value n (JSON_stringify v @ tl0) = Some (v, tl0)"
    and vs: "parse_elems n tl0 = Some (vs, rest)"
  shows "parse_elems (Suc n) (CHR '','' # JSON_stringify v @ tl0) = Some (v # vs, rest)"
proof -
  have ws: "skip_ws (CHR '','' # JSON_stringify v @ tl0) = CHR '','' # JSON_stringify v @ tl0"
    by (simp add: skip_ws_def is_ws_def)
  show ?thesis
    by (simp add: parse_elems_step [OF ws, of n] v vs)
qed

lemma parse_members_close: "parse_members (Suc n) (''}'' @ rest) = Some ([], rest)"
proof -
  have ws: "skip_ws (''}'' @ rest) = CHR ''}'' # rest"
    by (simp add: skip_ws_def is_ws_def)
  show ?thesis
    using parse_members_step [OF ws, of n] by simp
qed

lemma parse_members_more:
  assumes v: "parse_value n (JSON_stringify v @ tl0) = Some (v, tl0)"
    and ms: "parse_members n tl0 = Some (ms, rest)"
  shows "parse_members (Suc n) (CHR '','' # quote k @ CHR '':'' # JSON_stringify v @ tl0)
         = Some ((k, v) # ms, rest)"
proof -
  let ?body = "quote k @ CHR '':'' # JSON_stringify v @ tl0"
  have ws: "skip_ws (CHR '','' # ?body) = CHR '','' # ?body"
    by (simp add: skip_ws_def is_ws_def)
  have key: "parse_key ?body = Some (k, JSON_stringify v @ tl0)"
    by (rule parse_key_quote)
  show ?thesis
    by (simp add: parse_members_step [OF ws, of n] key v ms)
qed

lemma parse_stringify:
  "wf_json v \<Longrightarrow> num_end rest \<Longrightarrow> length (JSON_stringify v) \<le> n
     \<Longrightarrow> parse_value n (JSON_stringify v @ rest) = Some (v, rest)"
  "wf_elems vs \<Longrightarrow> length (stringify_elems vs) \<le> n
     \<Longrightarrow> parse_elems n (stringify_elems vs @ rest) = Some (vs, rest)"
  "wf_members ms \<Longrightarrow> length (stringify_members ms) \<le> n
     \<Longrightarrow> parse_members n (stringify_members ms @ rest) = Some (ms, rest)"
proof (induction v and vs and ms arbitrary: n rest and n rest and n rest
    rule: JSON_stringify_stringify_elems_stringify_members.induct)
  case 1
  then obtain m where "n = Suc m" by (cases n) auto
  then show ?case using parse_value_null by simp
next
  case (2 b)
  then obtain m where "n = Suc m" by (cases n) (auto split: if_splits)
  then show ?case using parse_value_true parse_value_false by simp
next
  case (3 i)
  have "string_of_number i \<noteq> []"
    using string_of_number_start [of i] by auto
  with 3 obtain m where "n = Suc m" by (cases n) auto
  then show ?case using parse_value_number [OF "3.prems"(2)] by simp
next
  case (4 s)
  then obtain m where "n = Suc m" by (cases n) (auto simp: quote_def)
  then show ?case using parse_value_string by simp
next
  case 5
  then obtain m where "n = Suc m" by (cases n) auto
  then show ?case using parse_value_empty_array by simp
next
  case (6 v vs)
  from "6.prems" obtain m where n: "n = Suc m" by (cases n) auto
  let ?tl = "stringify_elems vs @ rest"
  have len: "length (JSON_stringify v) \<le> m" "length (stringify_elems vs) \<le> m"
    using "6.prems"(3) by (simp_all add: n)
  have wf: "wf_json v" "wf_elems vs"
    using "6.prems"(1) by simp_all
  have pv: "parse_value m (JSON_stringify v @ ?tl) = Some (v, ?tl)"
    using wf(1) num_end_elems len(1) by (rule "6.IH"(1))
  have pe: "parse_elems m ?tl = Some (vs, rest)"
    using wf(2) len(2) by (rule "6.IH"(2))
  show ?case
    using parse_value_array [OF pv pe] by (simp add: n)
next
  case 7
  then obtain m where "n = Suc m" by (cases n) auto
  then show ?case using parse_value_empty_object by simp
next
  case (8 k v ms)
  from "8.prems" obtain m where n: "n = Suc m" by (cases n) auto
  let ?tl = "stringify_members ms @ rest"
  have len: "length (JSON_stringify v) \<le> m" "length (stringify_members ms) \<le> m"
    using "8.prems"(3) by (simp_all add: n)
  have wf: "wf_json v" "wf_members ms" "distinct (map fst ((k, v) # ms))"
    using "8.prems"(1) by simp_all
  have pv: "parse_value m (JSON_stringify v @ ?tl) = Some (v, ?tl)"
    using wf(1) num_end_members len(1) by (rule "8.IH"(1))
  have pm: "parse_members m ?tl = Some (ms, rest)"
    using wf(2) len(2) by (rule "8.IH"(2))
  show ?case
    using parse_value_object [OF pv pm wf(3)] by (simp add: n)
next
  case 9
  then obtain m where "n = Suc m" by (cases n) auto
  then show ?case using parse_elems_close by simp
next
  case (10 v vs)
  from "10.prems" obtain m where n: "n = Suc m" by (cases n) auto
  let ?tl = "stringify_elems vs @ rest"
  have len: "length (JSON_stringify v) \<le> m" "length (stringify_elems vs) \<le> m"
    using "10.prems"(2) by (simp_all add: n)
  have wf: "wf_json v" "wf_elems vs"
    using "10.prems"(1) by simp_all
  have pv: "parse_value m (JSON_stringify v @ ?tl) = Some (v, ?tl)"
    using wf(1) num_end_elems len(1) by (rule "10.IH"(1))
  have pe: "parse_elems m ?tl = Some (vs, rest)"
    using wf(2) len(2) by (rule "10.IH"(2))
  show ?case
    using parse_elems_more [OF pv pe] by (simp add: n)
next
  case 11
  then obtain m where "n = Suc m" by (cases n) auto
  then show ?case using parse_members_close by simp
next
  case (12 k v ms)
  from "12.prems" obtain m where n: "n = Suc m" by (cases n) auto
  let ?tl = "stringify_members ms @ rest"
  have len: "length (JSON_stringify v) \<le> m" "length (stringify_members ms) \<le> m"
    using "12.prems"(2) by (simp_all add: n)
  have wf: "wf_json v" "wf_members ms"
    using "12.prems"(1) by simp_all
  have pv: "parse_value m (JSON_stringify v @ ?tl) = Some (v, ?tl)"
    using wf(1) num_end_members len(1) by (rule "12.IH"(1))
  have pm: "parse_members m ?tl = Some (ms, rest)"
    using wf(2) len(2) by (rule "12.IH"(2))
  show ?case
    using parse_members_more [OF pv pm] by (simp add: n)
qed

lemma JSON_parse_stringify: "wf_json v \<Longrightarrow> JSON_parse (JSON_stringify v) = Some v"
proof -
  assume wf: "wf_json v"
  have "parse_value (Suc (length (JSON_stringify v))) (JSON_stringify v @ []) = Some (v, [])"
    using wf by (intro parse_stringify(1)) (simp_all add: num_end_def)
  then show ?thesis
    by (simp add: JSON_parse_def skip_ws_def)
qed

subsection \<open>Loading and persisting\<close>

lemma wf_elems_map:
  "(\<And>x. wf_json (f x)) \<Longrightarrow> wf_elems (map f xs)"
  by (induction xs) simp_all

lemma wf_state_toJS: "wf_json (state_toJS s)"
proof -
  have l: "wf_elems (map list_toJS (lists_st s))"
    by (rule wf_elems_map) (simp add: list_toJS_def)
  have c: "wf_elems (map card_toJS (cards s))"
    by (rule wf_elems_map) (simp add: card_toJS_def)
  show ?thesis
    by (simp add: state_toJS_def l c)
qed

lemma list_toJS_inj: "list_toJS a = list_toJS b \<Longrightarrow> a = b"
  by (cases a; cases b) (simp add: list_toJS_def)

lemma card_toJS_inj: "card_toJS a = card_toJS b \<Longrightarrow> a = b"
  by (cases a; cases b) (simp add: card_toJS_def)

lemma map_inj_eq: "(\<And>a b. f a = f b \<Longrightarrow> a = b) \<Longrightarrow> map f xs = map f ys \<Longrightarrow> xs = ys"
  by (induction xs arbitrary: ys) auto

lemma theme_text_inj:
  "(case a of Light \<Rightarrow> ''light'' | Dark \<Rightarrow> ''dark'')
     = (case b of Light \<Rightarrow> ''light'' | Dark \<Rightarrow> ''dark'') \<Longrightarrow> a = b"
  by (cases a; cases b) simp_all

lemma state_toJS_inj:
  assumes "state_toJS a = state_toJS b"
  shows "a = b"
proof -
  have l: "map list_toJS (lists_st a) = map list_toJS (lists_st b)"
    and c: "map card_toJS (cards a) = map card_toJS (cards b)"
    and t: "(case theme a of Light \<Rightarrow> ''light'' | Dark \<Rightarrow> ''dark'')
          = (case theme b of Light \<Rightarrow> ''light'' | Dark \<Rightarrow> ''dark'')"
    and q: "searchTerm a = searchTerm b"
    using assms by (simp_all add: state_toJS_def)
  have "lists_st a = lists_st b"
    using list_toJS_inj l by (rule map_inj_eq)
  moreover have "cards a = cards b"
    using card_toJS_inj c by (rule map_inj_eq)
  moreover have "theme a = theme b"
    using t by (rule theme_text_inj)
  ultimately show ?thesis
    using q by simp
qed

lemma JSON_parse_empty: "JSON_parse [] = None"
  by (simp add: JSON_parse_def parse_value.simps skip_ws_def)

lemma stringify_nonempty: "JSON_stringify v \<noteq> []"
  using stringify_start [of v] by auto

text \<open>
  C6. When the effect has written a state to \<open>localStorage\<close>, \<open>getInitialState\<close> reads
  that state back: the value it returns is the JavaScript object of the state that was
  written, and only that state has this object.
\<close>

theorem persist_then_load:
  assumes "persist_effect s localStorage = Normal localStorage'"
  shows "getInitialState JSON_parse t0 localStorage' = state_toJS s
       \<and> (\<forall>s'. state_toJS s' = state_toJS s \<longrightarrow> s' = s)"
proof
  let ?txt = "JSON_stringify (state_toJS s)"
  obtain m where "localStorage = Storage m"
    using assms by (cases localStorage) (simp_all add: persist_effect_def)
  then have after: "localStorage' = Storage (m(STORAGE_KEY \<mapsto> ?txt))"
    using assms by (simp add: persist_effect_def)
  have read: "getItem localStorage' STORAGE_KEY = Normal (Some ?txt)"
    by (simp add: after)
  have parsed: "JSON_parse ?txt = Some (state_toJS s)"
    using wf_state_toJS by (rule JSON_parse_stringify)
  show "getInitialState JSON_parse t0 localStorage' = state_toJS s"
    by (simp add: getInitialState_def read parsed stringify_nonempty)
next
  show "\<forall>s'. state_toJS s' = state_toJS s \<longrightarrow> s' = s"
    using state_toJS_inj by blast
qed

theorem persist_then_load_witness:
  "persist_effect (run (seed_state (\<lambda>k. 0)) [ToggleTheme, SetSearchTerm ''milk'']) (Storage Map.empty)
     = Normal (Storage [STORAGE_KEY \<mapsto>
         JSON_stringify (state_toJS (run (seed_state (\<lambda>k. 0)) [ToggleTheme, SetSearchTerm ''milk'']))])
   \<and> getInitialState JSON_parse (\<lambda>k. 0) (Storage [STORAGE_KEY \<mapsto>
         JSON_stringify (state_toJS (run (seed_state (\<lambda>k. 0)) [ToggleTheme, SetSearchTerm ''milk'']))])
     = state_toJS (run (seed_state (\<lambda>k. 0)) [ToggleTheme, SetSearchTerm ''milk''])"
proof -
  let ?s = "run (seed_state (\<lambda>k. 0)) [ToggleTheme, SetSearchTerm ''milk'']"
  have w: "persist_effect ?s (Storage Map.empty)
      = Normal (Storage [STORAGE_KEY \<mapsto> JSON_stringify (state_toJS ?s)])"
    by (simp add: persist_effect_def)
  show ?thesis
    using w persist_then_load [OF w, of "\<lambda>k. 0"] by simp
qed

text \<open>
  C9. \<open>getInitialState\<close> always returns a value. It returns the seed state when reading
  the key throws, when the key is absent and when \<open>JSON.parse\<close> throws on the stored
  text; in every other case it returns what \<open>JSON.parse\<close> returned, as it is. The seed
  state has three lists with the orders 0, 1, 2 and four cards. (\<open>JSON.parse\<close> throws on
  the empty text, which the truthiness test of the source sends to the seed state too.)
\<close>

theorem getInitialState_total:
  assumes "parse [] = None"
  shows "(getItem localStorage STORAGE_KEY = Throw
            \<longrightarrow> getInitialState parse t0 localStorage = state_toJS (seed_state t0))
       \<and> (getItem localStorage STORAGE_KEY = Normal None
            \<longrightarrow> getInitialState parse t0 localStorage = state_toJS (seed_state t0))
       \<and> (\<forall>txt. getItem localStorage STORAGE_KEY = Normal (Some txt) \<and> parse txt = None
            \<longrightarrow> getInitialState parse t0 localStorage = state_toJS (seed_state t0))
       \<and> (\<forall>txt v. getItem localStorage STORAGE_KEY = Normal (Some txt) \<and> parse txt = Some v
            \<longrightarrow> getInitialState parse t0 localStorage = v)
       \<and> map list_order (lists_st (seed_state t0)) = [0, 1, 2]
       \<and> length (cards (seed_state t0)) = 4"
  using assms
  by (auto simp: getInitialState_def seed_state_def INITIAL_LISTS_def INITIAL_CARDS_def)

theorem getInitialState_total_witness:
  "JSON_parse [] = None
   \<and> getInitialState JSON_parse (\<lambda>k. 0) Unavailable = state_toJS (seed_state (\<lambda>k. 0))
   \<and> getInitialState JSON_parse (\<lambda>k. 0) (Storage Map.empty) = state_toJS (seed_state (\<lambda>k. 0))
   \<and> getInitialState JSON_parse (\<lambda>k. 0) (Storage [STORAGE_KEY \<mapsto> ''{nope''])
       = state_toJS (seed_state (\<lambda>k. 0))
   \<and> getInitialState JSON_parse (\<lambda>k. 0) (Storage [STORAGE_KEY \<mapsto> ''[1,2]''])
       = JArr [JNum 1, JNum 2]"
proof -
  have e: "JSON_parse [] = None"
    by (rule JSON_parse_empty)
  have bad: "JSON_parse ''{nope'' = None"
    by code_simp
  have good: "JSON_parse ''[1,2]'' = Some (JArr [JNum 1, JNum 2])"
    by code_simp
  have a: "getInitialState JSON_parse (\<lambda>k. 0) Unavailable = state_toJS (seed_state (\<lambda>k. 0))"
    using getInitialState_total [of JSON_parse Unavailable "\<lambda>k. 0", OF e] by simp
  have b: "getInitialState JSON_parse (\<lambda>k. 0) (Storage Map.empty) = state_toJS (seed_state (\<lambda>k. 0))"
    using getInitialState_total [of JSON_parse "Storage Map.empty" "\<lambda>k. 0", OF e] by simp
  have c: "getInitialState JSON_parse (\<lambda>k. 0) (Storage [STORAGE_KEY \<mapsto> ''{nope''])
      = state_toJS (seed_state (\<lambda>k. 0))"
    using getInitialState_total [of JSON_parse "Storage [STORAGE_KEY \<mapsto> ''{nope'']" "\<lambda>k. 0", OF e] bad
    by simp
  have d: "getInitialState JSON_parse (\<lambda>k. 0) (Storage [STORAGE_KEY \<mapsto> ''[1,2]''])
      = JArr [JNum 1, JNum 2]"
    using getInitialState_total [of JSON_parse "Storage [STORAGE_KEY \<mapsto> ''[1,2]'']" "\<lambda>k. 0", OF e] good
    by simp
  show ?thesis
    using e a b c d by simp
qed

end
